theory Spec2Isabelle
  imports Main "HOL-Library.Log_Nat" "HOL-Library.Multiset"
begin

section \<open>Calendar dates\<close>

text \<open>
  A \<^verbatim>\<open>datetime.date\<close>: year, month and day.  Python only builds the dates that
  \<open>valid_date\<close> accepts (years 1 to 9999, a day that the month has).
\<close>

datatype date = Date (year: nat) (month: nat) (day: nat)

definition is_leap :: "nat \<Rightarrow> bool" where
  "is_leap y \<longleftrightarrow> y mod 4 = 0 \<and> (y mod 100 \<noteq> 0 \<or> y mod 400 = 0)"

definition days_in_month :: "nat \<Rightarrow> nat \<Rightarrow> nat" where
  "days_in_month y m =
     (if m = 2 then (if is_leap y then 29 else 28)
      else if m = 4 \<or> m = 6 \<or> m = 9 \<or> m = 11 then 30 else 31)"

definition valid_date :: "date \<Rightarrow> bool" where
  "valid_date d \<longleftrightarrow>
     1 \<le> year d \<and> year d \<le> 9999 \<and> 1 \<le> month d \<and> month d \<le> 12 \<and>
     1 \<le> day d \<and> day d \<le> days_in_month (year d) (month d)"

section \<open>Text of the data file\<close>

text \<open>
  \<^verbatim>\<open>to_csv\<close> and \<^verbatim>\<open>read_csv\<close> are pandas functions; what the application uses of
  them is embedded here.  The writer gives a header line \<^verbatim>\<open>Date,Flights\<close>, then one
  line per row holding the date in ISO form (\<^verbatim>\<open>%04d-%02d-%02d\<close>) and the flight count
  in decimal, each line ended by a line feed.  The reader takes lines ended by a line
  feed or by carriage return and line feed, skips blank lines, and reads a date that
  may carry a time of day (which \<^verbatim>\<open>.dt.date\<close> of line 19 drops) and an integer count.
  A frame in this theory holds \<^verbatim>\<open>int64\<close> counts: a file whose \<^verbatim>\<open>Flights\<close> fields are not
  all decimal integers of that range makes pandas build a column of another type,
  which no \<open>table\<close> stands for, and is reported as \<open>Malformed\<close> like a file without the
  two columns.
\<close>

definition digit_char :: "nat \<Rightarrow> char" where
  "digit_char n = char_of (48 + n)"

definition is_digit :: "char \<Rightarrow> bool" where
  "is_digit c \<longleftrightarrow> 48 \<le> (of_char c :: nat) \<and> (of_char c :: nat) \<le> 57"

definition digit_val :: "char \<Rightarrow> nat" where
  "digit_val c = of_char c - 48"

fun show_nat :: "nat \<Rightarrow> string" where
  "show_nat n = (if n < 10 then [digit_char n] else show_nat (n div 10) @ [digit_char (n mod 10)])"

declare show_nat.simps [simp del]

definition show_int :: "int \<Rightarrow> string" where
  "show_int i = (if i < 0 then CHR ''-'' # show_nat (nat (- i)) else show_nat (nat i))"

definition read_nat :: "string \<Rightarrow> nat option" where
  "read_nat s =
     (if s \<noteq> [] \<and> list_all is_digit s
      then Some (foldl (\<lambda>a c. 10 * a + digit_val c) 0 s) else None)"

definition read_int :: "string \<Rightarrow> int option" where
  "read_int s =
     (case s of
        [] \<Rightarrow> None
      | c # cs \<Rightarrow>
          if c = CHR ''-'' then map_option (\<lambda>n. - int n) (read_nat cs)
          else map_option int (read_nat s))"

definition int64 :: "int \<Rightarrow> bool" where
  "int64 i \<longleftrightarrow> - (2 ^ 63) \<le> i \<and> i < 2 ^ 63"

definition two_digits :: "nat \<Rightarrow> string" where
  "two_digits n = [digit_char (n div 10 mod 10), digit_char (n mod 10)]"

definition four_digits :: "nat \<Rightarrow> string" where
  "four_digits n =
     [digit_char (n div 1000 mod 10), digit_char (n div 100 mod 10),
      digit_char (n div 10 mod 10), digit_char (n mod 10)]"

definition isoformat :: "date \<Rightarrow> string" where
  "isoformat d =
     four_digits (year d) @ ''-'' @ two_digits (month d) @ ''-'' @ two_digits (day d)"

definition is_time :: "string \<Rightarrow> bool" where
  "is_time s \<longleftrightarrow>
     length s = 8 \<and> s ! 2 = CHR '':'' \<and> s ! 5 = CHR '':'' \<and>
     (case (read_nat (take 2 s), read_nat (take 2 (drop 3 s)), read_nat (drop 6 s)) of
        (Some h, Some m, Some sec) \<Rightarrow> h < 24 \<and> m < 60 \<and> sec < 60
      | _ \<Rightarrow> False)"

definition parse_date :: "string \<Rightarrow> date option" where
  "parse_date s =
     (if 10 \<le> length s \<and> s ! 4 = CHR ''-'' \<and> s ! 7 = CHR ''-'' \<and>
         (length s = 10 \<or> (s ! 10 = CHR '' '' \<or> s ! 10 = CHR ''T'') \<and> is_time (drop 11 s))
      then
        (case (read_nat (take 4 s), read_nat (take 2 (drop 5 s)), read_nat (take 2 (drop 8 s))) of
           (Some y, Some m, Some d) \<Rightarrow>
             if valid_date (Date y m d) then Some (Date y m d) else None
         | _ \<Rightarrow> None)
      else None)"

type_synonym table = "(date \<times> int) list"

definition newline :: char where
  "newline = CHR 0x0A"

definition csv_row :: "date \<times> int \<Rightarrow> string" where
  "csv_row r = isoformat (fst r) @ '','' @ show_int (snd r)"

definition to_csv :: "table \<Rightarrow> string" where
  "to_csv t = concat (map (\<lambda>l. l @ [newline]) (''Date,Flights'' # map csv_row t))"

fun split_on :: "char \<Rightarrow> string \<Rightarrow> string list" where
  "split_on c [] = [[]]"
| "split_on c (x # xs) =
     (if x = c then [] # split_on c xs
      else (case split_on c xs of
              [] \<Rightarrow> [[x]]
            | y # ys \<Rightarrow> (x # y) # ys))"

definition strip_cr :: "string \<Rightarrow> string" where
  "strip_cr l = (if l \<noteq> [] \<and> last l = CHR 0x0D then butlast l else l)"

definition csv_lines :: "string \<Rightarrow> string list" where
  "csv_lines text = filter (\<lambda>l. l \<noteq> []) (map strip_cr (split_on newline text))"

definition parse_row :: "string \<Rightarrow> (date \<times> int) option" where
  "parse_row l =
     (case split_on (CHR '','') l of
        [a, b] \<Rightarrow>
          (case (parse_date a, read_int b) of
             (Some d, Some f) \<Rightarrow> if int64 f then Some (d, f) else None
           | _ \<Rightarrow> None)
      | _ \<Rightarrow> None)"

datatype error = EmptyDataError | Malformed | AttributeError | OverflowError

definition read_csv :: "string \<Rightarrow> error + table" where
  "read_csv text =
     (case csv_lines text of
        [] \<Rightarrow> Inl EmptyDataError
      | h # ls \<Rightarrow>
          if h \<noteq> ''Date,Flights'' then Inl Malformed
          else (case those (map parse_row ls) of
                  None \<Rightarrow> Inl Malformed
                | Some t \<Rightarrow> Inr t))"

section \<open>Record store\<close>

text \<open>
  The file system as far as the program reads it: the text of \<^verbatim>\<open>stairs_data.csv\<close>,
  or \<open>None\<close> while the file does not exist.  A \<open>table\<close> is a data frame with the two
  columns \<^verbatim>\<open>Date\<close> and \<^verbatim>\<open>Flights\<close>, row by row; \<open>[]\<close> is
  \<^verbatim>\<open>pd.DataFrame(columns=["Date", "Flights"])\<close>.
\<close>

type_synonym fs = "string option"

definition load_data :: "fs \<Rightarrow> error + table" where
  "load_data f = (case f of Some text \<Rightarrow> read_csv text | None \<Rightarrow> Inr [])"

definition save_data :: "table \<Rightarrow> fs \<Rightarrow> fs" where
  "save_data data f = Some (to_csv data)"

section \<open>Handlers of the Data Entry and Historical Data tabs\<close>

datatype message = Already_added | Entry_added

text \<open>
  The \<^verbatim>\<open>Add Entry\<close> button.  The state is the frame loaded at the start of the run
  and the file; the date picked is compared with the stored dates through their ISO text.
\<close>

definition add_entry :: "date \<Rightarrow> int \<Rightarrow> table \<times> fs \<Rightarrow> (table \<times> fs) \<times> message" where
  "add_entry today flights s =
     (if isoformat today \<in> set (map (\<lambda>r. isoformat (fst r)) (fst s))
      then (s, Already_added)
      else (let data = fst s @ [(today, flights)]
            in ((data, save_data data (snd s)), Entry_added)))"

text \<open>The \<^verbatim>\<open>Reset Data\<close> button.\<close>

definition reset_data :: "table \<times> fs \<Rightarrow> table \<times> fs" where
  "reset_data s = ([], save_data [] (snd s))"

section \<open>ISO week numbers\<close>

text \<open>
  \<^verbatim>\<open>.dt.isocalendar().week\<close> and \<^verbatim>\<open>.dt.month\<close> belong to the date library; the
  week number is computed as \<^verbatim>\<open>datetime.date.isocalendar\<close> does, from the
  proleptic Gregorian ordinal of the date (day 1 is 0001-01-01, a Monday).
\<close>

definition days_before_year :: "int \<Rightarrow> int" where
  "days_before_year y = (y - 1) * 365 + (y - 1) div 4 - (y - 1) div 100 + (y - 1) div 400"

definition days_before_month :: "nat \<Rightarrow> nat \<Rightarrow> nat" where
  "days_before_month y m = sum_list (map (days_in_month y) [1..<m])"

definition ymd2ord :: "date \<Rightarrow> int" where
  "ymd2ord d =
     days_before_year (int (year d)) + int (days_before_month (year d) (month d)) + int (day d)"

definition isoweek1monday :: "int \<Rightarrow> int" where
  "isoweek1monday y =
     (let firstday = days_before_year y + 1;
          firstweekday = (firstday + 6) mod 7;
          week1monday = firstday - firstweekday
      in if firstweekday > 3 then week1monday + 7 else week1monday)"

definition iso_week :: "date \<Rightarrow> int" where
  "iso_week d =
     (let y = int (year d);
          today = ymd2ord d;
          week = (today - isoweek1monday y) div 7
      in if week < 0 then (today - isoweek1monday (y - 1)) div 7 + 1
         else if week \<ge> 52 \<and> today \<ge> isoweek1monday (y + 1) then 1
         else week + 1)"

section \<open>Double precision arithmetic\<close>

text \<open>
  Python floats and numpy \<^verbatim>\<open>float64\<close> values are IEEE 754 doubles.  A finite double
  is embedded as the rational number it denotes, and every arithmetic operation rounds
  its exact result to the nearest number with a 53 bit significand, ties to even
  (\<open>fl\<close>).  The exponent is not bounded in the embedding: overflow to infinity and
  subnormal numbers are left out, which the quotients of 64 bit integers computed
  here never reach.  \<open>None\<close> stands for NaN where a \<^verbatim>\<open>mean\<close> can yield it.
\<close>

definition rne :: "rat \<Rightarrow> int" where
  "rne x =
     (let f = \<lfloor>x\<rfloor>; r = x - of_int f
      in if r < 1 / 2 then f
         else if 1 / 2 < r then f + 1
         else if even f then f else f + 1)"

definition ilog2 :: "rat \<Rightarrow> int" where
  "ilog2 x = (if 1 \<le> x then bitlen \<lfloor>x\<rfloor> - 1 else - bitlen (\<lceil>1 / x\<rceil> - 1))"

definition fl :: "rat \<Rightarrow> rat" where
  "fl x =
     (if x = 0 then 0
      else (let e = ilog2 \<bar>x\<bar> - 52
            in of_int (rne (x / 2 powi e)) * 2 powi e))"

definition float_of_int :: "int \<Rightarrow> rat" where
  "float_of_int i = fl (of_int i)"

definition py_int :: "rat \<Rightarrow> int" where
  "py_int x = (if 0 \<le> x then \<lfloor>x\<rfloor> else \<lceil>x\<rceil>)"

section \<open>Integer and floating-point sums\<close>

text \<open>
  The \<^verbatim>\<open>Flights\<close> column is \<^verbatim>\<open>int64\<close>: \<^verbatim>\<open>Series.sum\<close> and the sums of a \<^verbatim>\<open>groupby\<close>
  wrap around modulo 2^64.
\<close>

definition wrap64 :: "int \<Rightarrow> int" where
  "wrap64 i = (i + 2 ^ 63) mod 2 ^ 64 - 2 ^ 63"

text \<open>
  \<^verbatim>\<open>Series.mean\<close> of an \<^verbatim>\<open>int64\<close> series takes each value to \<^verbatim>\<open>float64\<close> and adds the
  doubles with numpy's \<^verbatim>\<open>add.reduce\<close>: the values pass through a buffer of 8192
  elements, and each buffer is added by pairwise summation (fewer than 8 elements
  one after the other; up to 128 elements with eight running sums that are combined as
  a tree, then the remaining elements one after the other; more elements split in
  two parts, the first a multiple of 8 long).  Every addition rounds.
\<close>

definition fadd :: "rat \<Rightarrow> rat \<Rightarrow> rat" where
  "fadd a b = fl (a + b)"

definition seq_sum :: "rat \<Rightarrow> rat list \<Rightarrow> rat" where
  "seq_sum res xs = foldl fadd res xs"

function unrolled :: "rat list \<Rightarrow> rat list \<Rightarrow> rat list \<times> rat list" where
  "unrolled r xs =
     (if 8 \<le> length xs then unrolled (map2 fadd r (take 8 xs)) (drop 8 xs) else (r, xs))"
  by pat_completeness auto
termination
  by (relation "measure (\<lambda>(r, xs). length xs)") auto

declare unrolled.simps [simp del]

definition block_sum :: "rat list \<Rightarrow> rat" where
  "block_sum xs =
     (case unrolled (take 8 xs) (drop 8 xs) of
        (r, rest) \<Rightarrow>
          seq_sum
            (fadd (fadd (fadd (r ! 0) (r ! 1)) (fadd (r ! 2) (r ! 3)))
                  (fadd (fadd (r ! 4) (r ! 5)) (fadd (r ! 6) (r ! 7))))
            rest)"

function pairwise_sum :: "rat list \<Rightarrow> rat" where
  "pairwise_sum xs =
     (if length xs < 8 then seq_sum 0 xs
      else if length xs \<le> 128 then block_sum xs
      else (let n2 = length xs div 2 - length xs div 2 mod 8
            in fadd (pairwise_sum (take n2 xs)) (pairwise_sum (drop n2 xs))))"
  by pat_completeness auto
termination
proof (relation "measure length")
  show "wf (measure length)" by simp
next
  fix xs :: "rat list" and x
  assume a: "\<not> length xs \<le> 128" and x: "x = length xs div 2 - length xs div 2 mod 8"
  have "64 \<le> length xs div 2" using a by simp
  moreover have "length xs div 2 mod 8 < 8" by simp
  ultimately have "x < length xs" using x by linarith
  then show "(take x xs, xs) \<in> measure length" by simp
next
  fix xs :: "rat list" and x
  assume a: "\<not> length xs \<le> 128" and x: "x = length xs div 2 - length xs div 2 mod 8"
  have "64 \<le> length xs div 2" using a by simp
  moreover have "length xs div 2 mod 8 < 8" by simp
  ultimately have "0 < x" using x by linarith
  then show "(drop x xs, xs) \<in> measure length" using a by simp
qed

declare pairwise_sum.simps [simp del]

function chunks :: "nat \<Rightarrow> 'a list \<Rightarrow> 'a list list" where
  "chunks n xs = (if n = 0 \<or> xs = [] then [] else take n xs # chunks n (drop n xs))"
  by pat_completeness auto
termination
  by (relation "measure (\<lambda>(n, xs). length xs)") auto

declare chunks.simps [simp del]

definition np_sum :: "rat list \<Rightarrow> rat" where
  "np_sum xs = foldl (\<lambda>acc c. fadd acc (pairwise_sum c)) 0 (chunks 8192 xs)"

text \<open>The mean of an empty series is NaN.\<close>

definition mean :: "int list \<Rightarrow> rat option" where
  "mean xs =
     (if xs = [] then None
      else Some (fl (np_sum (map float_of_int xs) / float_of_int (int (length xs)))))"

text \<open>
  \<open>fsum A s\<close>: \<open>s\<close> is a sum of the doubles \<open>A\<close> added in double precision, in some
  order and grouping.  It serves to reason about \<open>np_sum\<close> without following its order.
\<close>

inductive fsum :: "rat multiset \<Rightarrow> rat \<Rightarrow> bool" where
  fsum_empty: "fsum {#} 0"
| fsum_single: "fsum {#x#} x"
| fsum_add: "fsum A a \<Longrightarrow> fsum B b \<Longrightarrow> fsum (A + B) (fl (a + b))"

section \<open>Aggregator\<close>

text \<open>
  A data frame: the rows of the two stored columns, the type of the \<^verbatim>\<open>Date\<close> column,
  and the columns \<^verbatim>\<open>Week\<close> and \<^verbatim>\<open>Month\<close> once they have been assigned.  \<open>DataFrame t\<close> is
  the frame as the program builds it from the rows \<open>t\<close>: line 19 of \<open>load_data\<close>, line 26
  of \<open>save_data\<close> and \<^verbatim>\<open>pd.DataFrame(columns=...)\<close> all leave \<^verbatim>\<open>datetime.date\<close> objects in
  the \<^verbatim>\<open>Date\<close> column, which is then of type \<^verbatim>\<open>object\<close>.  \<open>to_datetime\<close> is the frame
  after \<^verbatim>\<open>data['Date'] = pd.to_datetime(data['Date'])\<close>, with a \<^verbatim>\<open>datetime64\<close> column.
\<close>

datatype dtype = Object | Datetime64

record frame =
  rows :: table
  Date_dtype :: dtype
  Week :: "int list option"
  Month :: "nat list option"

definition DataFrame :: "table \<Rightarrow> frame" where
  "DataFrame t = \<lparr>rows = t, Date_dtype = Object, Week = None, Month = None\<rparr>"

definition to_datetime :: "frame \<Rightarrow> frame" where
  "to_datetime data = data\<lparr>Date_dtype := Datetime64\<rparr>"

text \<open>
  \<^verbatim>\<open>groupby(key)['Flights'].sum()\<close>: one entry per distinct key, in ascending order of
  the keys, holding the \<^verbatim>\<open>int64\<close> sum of the flights of the rows with that key.  The
  keys are ordered through \<open>ord\<close>.
\<close>

definition groupby_sum :: "('k \<Rightarrow> int) \<Rightarrow> 'k list \<Rightarrow> int list \<Rightarrow> ('k \<times> int) list" where
  "groupby_sum ord keys vals =
     map (\<lambda>k. (k, wrap64 (sum_list (map snd (filter (\<lambda>kv. fst kv = k) (zip keys vals))))))
       (sort_key ord (remdups keys))"

text \<open>
  The \<^verbatim>\<open>.dt\<close> accessor of line 32 exists for a \<^verbatim>\<open>datetime64\<close> column only: on a frame
  with rows whose \<^verbatim>\<open>Date\<close> column holds date objects it raises \<^verbatim>\<open>AttributeError\<close>, before
  anything is assigned.  Otherwise the function assigns two columns of the frame it is
  given.  The frame as the call leaves it is returned next to the result.
\<close>

definition calculate_averages ::
  "frame \<Rightarrow> (error + rat option \<times> rat option \<times> rat option) \<times> frame" where
  "calculate_averages data =
     (if rows data \<noteq> [] then
        (case Date_dtype data of
           Object \<Rightarrow> (Inl AttributeError, data)
         | Datetime64 \<Rightarrow>
             (let weeks = map (\<lambda>r. iso_week (fst r)) (rows data);
                  data1 = data\<lparr>Week := Some weeks\<rparr>;
                  months = map (\<lambda>r. month (fst r)) (rows data1);
                  data2 = data1\<lparr>Month := Some months\<rparr>;
                  flights = map snd (rows data2);
                  daily_avg = mean (map snd (groupby_sum ymd2ord (map fst (rows data2)) flights));
                  weekly_avg = mean (map snd (groupby_sum id weeks flights));
                  monthly_avg = mean (map snd (groupby_sum int months flights))
              in (Inr (daily_avg, weekly_avg, monthly_avg), data2)))
      else (Inr (Some 0, Some 0, Some 0), data))"

text \<open>
  Lines 107 and 147: the Dashboard passes the frame that \<open>load_data\<close> returned.
\<close>

definition dashboard_averages ::
  "fs \<Rightarrow> error + (error + rat option \<times> rat option \<times> rat option) \<times> frame" where
  "dashboard_averages f =
     (case load_data f of
        Inl e \<Rightarrow> Inl e
      | Inr t \<Rightarrow> Inr (calculate_averages (DataFrame t)))"

section \<open>Projector\<close>

definition TOTAL_HEIGHT_KINABALU :: int where
  "TOTAL_HEIGHT_KINABALU = 13435"

definition HEIGHT_PER_FLIGHT :: int where
  "HEIGHT_PER_FLIGHT = 8"

definition TOTAL_FLIGHTS_KINABALU :: rat where
  "TOTAL_FLIGHTS_KINABALU =
     fl (float_of_int TOTAL_HEIGHT_KINABALU / float_of_int HEIGHT_PER_FLIGHT)"

text \<open>
  A \<^verbatim>\<open>datetime\<close>: the ordinal of its day and the microseconds since midnight.
  \<^verbatim>\<open>timedelta(days=x)\<close> for a float keeps the whole days exactly and rounds the
  fraction of a day, taken to microseconds in double precision, to the nearest
  microsecond; more than 999999999 days overflow.  Adding a \<^verbatim>\<open>timedelta\<close> to a
  \<^verbatim>\<open>datetime\<close> overflows when the day leaves the years 1 to 9999.
\<close>

record datetime =
  ordinal :: int
  microsecond_of_day :: int

definition us_per_day :: int where
  "us_per_day = 86400000000"

definition MAXORDINAL :: int where
  "MAXORDINAL = 3652059"

definition timedelta_days :: "rat \<Rightarrow> error + int" where
  "timedelta_days x =
     (let whole = py_int x;
          frac = x - of_int whole;
          us = whole * us_per_day + rne (fl (of_int us_per_day * frac))
      in if \<bar>us div us_per_day\<bar> > 999999999 then Inl OverflowError else Inr us)"

definition add_timedelta :: "datetime \<Rightarrow> int \<Rightarrow> error + datetime" where
  "add_timedelta t delta =
     (let us = ordinal t * us_per_day + microsecond_of_day t + delta;
          d = us div us_per_day
      in if 0 < d \<and> d \<le> MAXORDINAL
         then Inr \<lparr>ordinal = d, microsecond_of_day = us mod us_per_day\<rparr>
         else Inl OverflowError)"

text \<open>
  Lines 45 and 46.  The grouping of line 46 is by the date objects themselves and needs
  no \<^verbatim>\<open>.dt\<close> accessor.
\<close>

definition total_flights_climbed :: "table \<Rightarrow> int" where
  "total_flights_climbed data = wrap64 (sum_list (map snd data))"

definition daily_average :: "table \<Rightarrow> rat option" where
  "daily_average data = mean (map snd (groupby_sum ymd2ord (map fst data) (map snd data)))"

definition days_to_completion :: "table \<Rightarrow> rat \<Rightarrow> rat" where
  "days_to_completion data daily_avg =
     (let remaining_flights = fl (TOTAL_FLIGHTS_KINABALU - float_of_int (total_flights_climbed data))
      in fl (remaining_flights / daily_avg))"

text \<open>
  \<open>predict_completion_date now data\<close>, with \<open>now\<close> the value of
  \<^verbatim>\<open>datetime.today()\<close>.  \<open>Inr None\<close> is the pair \<^verbatim>\<open>(None, None)\<close>; the completion
  date, which the function returns as \<^verbatim>\<open>%Y-%m-%d\<close> text, is given by the ordinal of
  its day.
\<close>

definition predict_completion_date :: "datetime \<Rightarrow> table \<Rightarrow> error + (int \<times> int) option" where
  "predict_completion_date now data =
     (if data \<noteq> [] then
        (case daily_average data of
           None \<Rightarrow> Inr None
         | Some daily_avg \<Rightarrow>
             if daily_avg > 0 then
               (let days = days_to_completion data daily_avg
                in case timedelta_days days of
                     Inl e \<Rightarrow> Inl e
                   | Inr delta \<Rightarrow>
                       (case add_timedelta now delta of
                          Inl e \<Rightarrow> Inl e
                        | Inr completion_date \<Rightarrow>
                            Inr (Some (ordinal completion_date, py_int days))))
             else Inr None)
      else Inr None)"

section \<open>Inputs of the examples\<close>

text \<open>A value of \<^verbatim>\<open>datetime.today()\<close>: 2026-11-04, 18:00.\<close>

definition evening :: datetime where
  "evening = \<lparr>ordinal = 739924, microsecond_of_day = 64800000000\<rparr>"

text \<open>
  \<open>calendar_rows y n f\<close>: rows on \<open>n\<close> distinct dates, the first 28 days of the months
  from January of the year \<open>y\<close> on, the \<open>i\<close>-th of them with \<open>f i\<close> flights.
\<close>

definition calendar_date :: "nat \<Rightarrow> nat \<Rightarrow> date" where
  "calendar_date y i = Date (y + i div 336) (1 + i mod 336 div 28) (1 + i mod 28)"

definition calendar_rows :: "nat \<Rightarrow> nat \<Rightarrow> (nat \<Rightarrow> int) \<Rightarrow> table" where
  "calendar_rows y n f = map (\<lambda>i. (calendar_date y i, f i)) [0..<n]"

section \<open>Facts about the text of the data file\<close>

lemma is_digit_digit_char: "n < 10 \<Longrightarrow> is_digit (digit_char n)"
  by (simp add: is_digit_def digit_char_def)

lemma digit_val_digit_char: "n < 10 \<Longrightarrow> digit_val (digit_char n) = n"
  by (simp add: digit_val_def digit_char_def)

lemma read_nat_two_digits: "n < 100 \<Longrightarrow> read_nat (two_digits n) = Some n"
  by (simp add: read_nat_def two_digits_def is_digit_digit_char digit_val_digit_char)

lemma div_100_10: "(y::nat) div 100 div 10 = y div 1000"
  by (simp add: div_mult2_eq[symmetric])

lemma div_10_10: "(y::nat) div 10 div 10 = y div 100"
  by (simp add: div_mult2_eq[symmetric])

lemma four_digits_value:
  assumes "(y::nat) < 10000"
  shows "10 * (10 * (10 * (y div 1000 mod 10) + y div 100 mod 10) + y div 10 mod 10) + y mod 10 = y"
proof -
  have a: "y div 1000 mod 10 = y div 1000" using assms by simp
  have b: "10 * (y div 1000) + y div 100 mod 10 = y div 100"
    using div_mult_mod_eq[of "y div 100" 10] by (simp only: div_100_10 mult.commute)
  have c: "10 * (y div 100) + y div 10 mod 10 = y div 10"
    using div_mult_mod_eq[of "y div 10" 10] by (simp only: div_10_10 mult.commute)
  have d: "10 * (y div 10) + y mod 10 = y" by simp
  show ?thesis by (simp only: a b c d)
qed

lemma read_nat_four_digits: "y < 10000 \<Longrightarrow> read_nat (four_digits y) = Some y"
  using four_digits_value[of y]
  by (simp add: read_nat_def four_digits_def is_digit_digit_char digit_val_digit_char)

lemma valid_date_bounds:
  "valid_date d \<Longrightarrow> year d < 10000 \<and> month d < 100 \<and> day d < 100"
  by (auto simp: valid_date_def days_in_month_def split: if_splits)

lemma parse_isoformat:
  assumes v: "valid_date d"
  shows "parse_date (isoformat d) = Some d"
proof -
  have l4: "length (four_digits (year d)) = 4" by (simp add: four_digits_def)
  have l2: "length (two_digits (month d)) = 2" "length (two_digits (day d)) = 2"
    by (simp_all add: two_digits_def)
  from valid_date_bounds[OF v] have r:
    "read_nat (four_digits (year d)) = Some (year d)"
    "read_nat (two_digits (month d)) = Some (month d)"
    "read_nat (two_digits (day d)) = Some (day d)"
    by (simp_all add: read_nat_four_digits read_nat_two_digits)
  show ?thesis using v l4 l2 r
    by (simp add: parse_date_def isoformat_def nth_append)
qed

lemma isoformat_inj:
  assumes "valid_date d" "valid_date d'" "isoformat d = isoformat d'"
  shows "d = d'"
proof -
  have "Some d = parse_date (isoformat d)" using assms(1) by (simp add: parse_isoformat)
  also have "\<dots> = Some d'" using assms(2,3) by (simp add: parse_isoformat)
  finally show ?thesis by simp
qed

lemma isoformat_mem:
  assumes "valid_date today" "\<forall>r \<in> set data. valid_date (fst r)"
  shows "isoformat today \<in> set (map (\<lambda>r. isoformat (fst r)) data) \<longleftrightarrow> today \<in> fst ` set data"
  using assms by (auto intro: isoformat_inj simp: image_iff)

lemma csv_lines_header: "csv_lines (to_csv []) = [''Date,Flights'']"
  by (simp add: to_csv_def csv_lines_def newline_def strip_cr_def)

lemma valid_2024_03_15: "valid_date (Date 2024 3 15)"
  by (simp add: valid_date_def days_in_month_def)

lemma valid_2024_03_16: "valid_date (Date 2024 3 16)"
  by (simp add: valid_date_def days_in_month_def)

lemma iso_week_2024_03_15: "iso_week (Date 2024 3 15) = 11"
  by code_simp

section \<open>The record store\<close>

text \<open>
  C9: when no persisted state exists (the file is absent), \<open>load_data\<close> returns the
  empty record collection and not an error.
\<close>

theorem load_data_missing_file: "load_data None = Inr []"
  by (simp add: load_data_def)

text \<open>
  C3: the \<^verbatim>\<open>Add Entry\<close> handler, for calendar dates.  When the frame already holds a
  row for the date picked, the entry is rejected and both the frame and the file stay
  as they were.  Otherwise the frame returned is the old one with the row
  (date, flights) appended, every earlier row as before, and that frame is what the
  file holds afterwards.
\<close>

theorem add_entry_guard:
  assumes "valid_date today" "\<forall>r \<in> set data. valid_date (fst r)"
  shows "(today \<in> fst ` set data \<longrightarrow> add_entry today flights (data, f) = ((data, f), Already_added))
       \<and> (today \<notin> fst ` set data \<longrightarrow>
            add_entry today flights (data, f)
              = ((data @ [(today, flights)], Some (to_csv (data @ [(today, flights)]))), Entry_added))"
  using isoformat_mem[OF assms] by (simp add: add_entry_def save_data_def Let_def)

theorem add_entry_guard_witness:
  "add_entry (Date 2024 3 15) 7 ([(Date 2024 3 15, 50)], None) = (([(Date 2024 3 15, 50)], None), Already_added)
   \<and> add_entry (Date 2024 3 16) 7 ([(Date 2024 3 15, 50)], None)
       = (([(Date 2024 3 15, 50), (Date 2024 3 16, 7)],
           Some (to_csv [(Date 2024 3 15, 50), (Date 2024 3 16, 7)])), Entry_added)"
proof -
  have h: "\<forall>r \<in> set [(Date 2024 3 15, 50::int)]. valid_date (fst r)"
    by (simp add: valid_2024_03_15)
  show ?thesis
    using add_entry_guard[OF valid_2024_03_15 h, of 7 None]
      add_entry_guard[OF valid_2024_03_16 h, of 7 None]
    by simp
qed

text \<open>
  C8: after the \<^verbatim>\<open>Reset Data\<close> handler the frame in memory is empty, loading the file
  it wrote gives the empty frame, and \<open>calculate_averages\<close> on the empty frame returns
  0 for the daily, the weekly and the monthly average.
\<close>

theorem reset_then_load:
  "load_data (snd (reset_data s)) = Inr []
   \<and> fst (reset_data s) = []
   \<and> fst (calculate_averages (DataFrame [])) = Inr (Some 0, Some 0, Some 0)"
  by (simp add: load_data_def reset_data_def save_data_def read_csv_def csv_lines_header
      calculate_averages_def DataFrame_def)

section \<open>Rounding to double precision\<close>

lemma rne_error: "\<bar>of_int (rne x) - x\<bar> \<le> 1 / 2"
proof -
  have "of_int \<lfloor>x\<rfloor> \<le> x" "x < of_int \<lfloor>x\<rfloor> + 1" by linarith+
  then show ?thesis unfolding rne_def Let_def by (auto simp: abs_le_iff)
qed

lemma rne_of_int: "rne (of_int k) = k"
  by (simp add: rne_def)

lemma powi_nat: "0 \<le> k \<Longrightarrow> (2::rat) powi k = 2 ^ nat k"
  by (simp add: power_int_def)

lemma powi_neg: "0 \<le> k \<Longrightarrow> (2::rat) powi (- k) = 1 / 2 ^ nat k"
  by (simp add: power_int_def field_simps)

lemma powi_pos: "0 < (2::rat) powi k"
  by simp

lemma ilog2_bounds_ge1:
  assumes "1 \<le> (x::rat)"
  shows "2 powi (ilog2 x) \<le> x" "x < 2 powi (ilog2 x + 1)"
proof -
  let ?n = "\<lfloor>x\<rfloor>"
  have n: "0 < ?n" using assms by linarith
  have b1: "bitlen ?n \<ge> 1" using n bitlen_eq_zero_iff[of ?n] bitlen_nonneg[of ?n] by linarith
  from bitlen_bounds[OF n] have lo: "2 ^ nat (bitlen ?n - 1) \<le> ?n" and hi: "?n < 2 ^ nat (bitlen ?n)"
    by auto
  have "(2::rat) ^ nat (bitlen ?n - 1) = of_int (2 ^ nat (bitlen ?n - 1))" by simp
  also have "\<dots> \<le> of_int ?n" using lo by (simp only: of_int_le_iff)
  also have "\<dots> \<le> x" by linarith
  finally have "(2::rat) ^ nat (bitlen ?n - 1) \<le> x" .
  then show "2 powi (ilog2 x) \<le> x" using assms b1 by (simp add: ilog2_def powi_nat)
  have "?n + 1 \<le> 2 ^ nat (bitlen ?n)" using hi by simp
  then have "of_int (?n + 1) \<le> (of_int (2 ^ nat (bitlen ?n)) :: rat)" by (simp only: of_int_le_iff)
  then have "of_int ?n + 1 \<le> (2::rat) ^ nat (bitlen ?n)" by simp
  moreover have "x < of_int ?n + 1" by linarith
  ultimately have "x < (2::rat) ^ nat (bitlen ?n)" by linarith
  then show "x < 2 powi (ilog2 x + 1)" using assms b1 by (simp add: ilog2_def powi_nat)
qed

lemma ilog2_bounds_lt1:
  assumes "0 < (x::rat)" "x < 1"
  shows "2 powi (ilog2 x) \<le> x" "x < 2 powi (ilog2 x + 1)"
proof -
  let ?m = "\<lceil>1 / x\<rceil>"
  let ?k = "bitlen (?m - 1)"
  have inv: "1 < 1 / x" using assms by simp
  have m: "0 < ?m - 1" using inv by linarith
  have k1: "?k \<ge> 1" using m bitlen_eq_zero_iff[of "?m - 1"] bitlen_nonneg[of "?m - 1"] by linarith
  from bitlen_bounds[OF m] have lo: "2 ^ nat (?k - 1) \<le> ?m - 1" and hi: "?m - 1 < 2 ^ nat ?k"
    by auto
  have "?m \<le> 2 ^ nat ?k" using hi by simp
  then have "of_int ?m \<le> (of_int (2 ^ nat ?k) :: rat)" by (simp only: of_int_le_iff)
  then have "of_int ?m \<le> (2::rat) ^ nat ?k" by simp
  moreover have "1 / x \<le> of_int ?m" by linarith
  ultimately have "1 / x \<le> (2::rat) ^ nat ?k" by linarith
  then have "1 \<le> (2::rat) ^ nat ?k * x" using assms by (simp add: field_simps)
  then have "1 / (2::rat) ^ nat ?k \<le> x" by (simp add: field_simps)
  then show "2 powi (ilog2 x) \<le> x" using assms k1 by (simp add: ilog2_def powi_neg)
  have "(of_int (2 ^ nat (?k - 1)) :: rat) \<le> of_int (?m - 1)" using lo by (simp only: of_int_le_iff)
  then have "(2::rat) ^ nat (?k - 1) \<le> of_int ?m - 1" by simp
  moreover have "of_int ?m - 1 < 1 / x" by linarith
  ultimately have "(2::rat) ^ nat (?k - 1) < 1 / x" by linarith
  then have "(2::rat) ^ nat (?k - 1) * x < 1" using assms by (simp add: field_simps)
  then have "x < 1 / (2::rat) ^ nat (?k - 1)" by (simp add: field_simps)
  moreover have "ilog2 x + 1 = - (?k - 1)" using assms by (simp add: ilog2_def)
  moreover have "0 \<le> ?k - 1" using k1 by simp
  ultimately show "x < 2 powi (ilog2 x + 1)" using powi_neg[of "?k - 1"] by simp
qed

lemma ilog2_lower: "0 < x \<Longrightarrow> 2 powi (ilog2 x) \<le> x"
  using ilog2_bounds_ge1(1)[of x] ilog2_bounds_lt1(1)[of x] by (cases "1 \<le> x") auto

lemma ilog2_upper: "0 < x \<Longrightarrow> x < 2 powi (ilog2 x + 1)"
  using ilog2_bounds_ge1(2)[of x] ilog2_bounds_lt1(2)[of x] by (cases "1 \<le> x") auto


lemma fl_error: "\<bar>fl x - x\<bar> \<le> \<bar>x\<bar> / 2 ^ 53"
proof (cases "x = 0")
  case True
  then show ?thesis by (simp add: fl_def)
next
  case False
  define e where "e = ilog2 \<bar>x\<bar> - 52"
  define p where "p = (2::rat) powi e"
  have p: "0 < p" by (simp add: p_def)
  have flx: "fl x = of_int (rne (x / p)) * p"
    using False by (simp add: fl_def Let_def e_def p_def)
  have "fl x - x = (of_int (rne (x / p)) - x / p) * p"
    using p by (simp add: flx field_simps)
  then have "\<bar>fl x - x\<bar> = \<bar>of_int (rne (x / p)) - x / p\<bar> * p"
    using p by (simp add: abs_mult)
  also have "\<dots> \<le> (1 / 2) * p"
    using rne_error[of "x / p"] p by (intro mult_right_mono) auto
  finally have a: "\<bar>fl x - x\<bar> \<le> p / 2" by simp
  have "p * 2 ^ 52 = 2 powi e * 2 powi 52" by (simp add: p_def)
  also have "\<dots> = 2 powi (e + 52)" by (simp add: power_int_add)
  also have "\<dots> = 2 powi (ilog2 \<bar>x\<bar>)" by (simp add: e_def)
  also have "\<dots> \<le> \<bar>x\<bar>" using False by (intro ilog2_lower) simp
  finally have "p * 2 ^ 52 \<le> \<bar>x\<bar>" .
  then have "p / 2 \<le> \<bar>x\<bar> / 2 ^ 53" by (simp add: field_simps)
  with a show ?thesis by linarith
qed

lemma fl_pos: "0 < x \<Longrightarrow> 0 < fl x"
proof -
  assume x: "0 < x"
  have a: "\<bar>fl x - x\<bar> \<le> x / 2 ^ 53" using fl_error[of x] x by simp
  have b: "x / 2 ^ 53 < x" using x by (simp add: field_simps)
  from a b have "\<bar>fl x - x\<bar> < x" by (rule le_less_trans)
  then show ?thesis by linarith
qed

lemma fl_neg: "x < 0 \<Longrightarrow> fl x < 0"
proof -
  assume x: "x < 0"
  have a: "\<bar>fl x - x\<bar> \<le> (- x) / 2 ^ 53" using fl_error[of x] x by simp
  have b: "(- x) / 2 ^ 53 < - x" using x by (simp add: field_simps)
  from a b have "\<bar>fl x - x\<bar> < - x" by (rule le_less_trans)
  then show ?thesis by linarith
qed

lemma fl_zero: "fl 0 = 0"
  by (simp add: fl_def)

lemma fl_of_int:
  assumes "\<bar>k\<bar> < 2 ^ 53"
  shows "fl (of_int k) = of_int k"
proof (cases "k = 0")
  case True
  then show ?thesis by (simp add: fl_def)
next
  case False
  define x :: rat where "x = of_int k"
  define e where "e = ilog2 \<bar>x\<bar> - 52"
  have x0: "x \<noteq> 0" "0 < \<bar>x\<bar>" using False by (simp_all add: x_def)
  have "\<bar>x\<bar> = of_int \<bar>k\<bar>" by (simp add: x_def)
  also have "\<dots> < of_int (2 ^ 53)" using assms by (simp only: of_int_less_iff)
  finally have ub: "\<bar>x\<bar> < 2 powi 53" by simp
  have "2 powi (ilog2 \<bar>x\<bar>) \<le> \<bar>x\<bar>" using x0 by (intro ilog2_lower)
  with ub have "(2::rat) powi (ilog2 \<bar>x\<bar>) < 2 powi 53" by linarith
  then have "ilog2 \<bar>x\<bar> < 53" by (intro power_int_le_imp_less_exp[of 2]) auto
  then have e: "e \<le> 0" by (simp add: e_def)
  define n where "n = nat (- e)"
  have pe: "(2::rat) powi e = 1 / 2 ^ n" using e powi_neg[of "- e"] by (simp add: n_def)
  have "x / 2 powi e = of_int (k * 2 ^ n)" by (simp add: pe x_def)
  then have "rne (x / 2 powi e) = k * 2 ^ n" by (simp only: rne_of_int)
  then have "fl x = of_int (k * 2 ^ n) * (1 / 2 ^ n)"
    using x0 by (simp add: fl_def Let_def e_def[symmetric] pe)
  then show ?thesis by (simp add: x_def)
qed

section \<open>Sums in double precision\<close>

lemma fsum_seq_sum: "fsum A r \<Longrightarrow> fsum (A + mset xs) (seq_sum r xs)"
proof (induction xs arbitrary: A r)
  case Nil
  then show ?case by (simp add: seq_sum_def)
next
  case (Cons x xs)
  have "fsum (A + {#x#}) (fadd r x)"
    unfolding fadd_def using Cons.prems fsum_single by (rule fsum_add)
  from Cons.IH[OF this] show ?case by (simp add: seq_sum_def)
qed

lemma sum_list_add_singles:
  "length Ms = length ys \<Longrightarrow>
   sum_list (map2 (\<lambda>M y. M + {#y#}) Ms ys) = sum_list Ms + mset (ys :: rat list)"
  by (induction Ms ys rule: list_induct2) auto

lemma fsum_rows:
  "list_all2 fsum Ms r \<Longrightarrow> length ys = length r \<Longrightarrow>
   list_all2 fsum (map2 (\<lambda>M y. M + {#y#}) Ms ys) (map2 fadd r ys)"
proof (induction Ms r arbitrary: ys rule: list_all2_induct)
  case Nil
  then show ?case by simp
next
  case (Cons M Ms a r)
  then obtain y ys' where ys: "ys = y # ys'" by (cases ys) auto
  have "fsum (M + {#y#}) (fadd a y)"
    unfolding fadd_def using Cons.hyps(1) fsum_single by (rule fsum_add)
  then show ?case using Cons ys by simp
qed

lemma fsum_unrolled:
  assumes "list_all2 fsum Ms r" "length r = 8" "unrolled r xs = (r', rest)"
  shows "\<exists>Ms'. list_all2 fsum Ms' r' \<and> length r' = 8 \<and> length rest < 8
               \<and> sum_list Ms' + mset rest = sum_list Ms + mset xs"
  using assms
proof (induction r xs arbitrary: Ms rule: unrolled.induct)
  case (1 r xs)
  show ?case
  proof (cases "8 \<le> length xs")
    case True
    let ?ys = "take 8 xs"
    have l: "length ?ys = length r" using True 1(3) by simp
    have lm: "length Ms = length ?ys" using 1(2) l by (simp add: list_all2_lengthD)
    have a: "list_all2 fsum (map2 (\<lambda>M y. M + {#y#}) Ms ?ys) (map2 fadd r ?ys)"
      using 1(2) l by (rule fsum_rows)
    have b: "length (map2 fadd r ?ys) = 8" using l 1(3) by simp
    have c: "unrolled (map2 fadd r ?ys) (drop 8 xs) = (r', rest)"
      using 1(4) True by (subst (asm) unrolled.simps) simp
    from 1(1)[OF True a b c] obtain Ms' where
      m: "list_all2 fsum Ms' r'" "length r' = 8" "length rest < 8"
         "sum_list Ms' + mset rest = sum_list (map2 (\<lambda>M y. M + {#y#}) Ms ?ys) + mset (drop 8 xs)"
      by blast
    have "sum_list (map2 (\<lambda>M y. M + {#y#}) Ms ?ys) + mset (drop 8 xs) = sum_list Ms + mset xs"
      using sum_list_add_singles[OF lm]
      by (metis add.assoc append_take_drop_id mset_append)
    with m show ?thesis by auto
  next
    case False
    then have "r' = r" "rest = xs" using 1(4) by (subst (asm) unrolled.simps, simp)+
    then show ?thesis using 1(2,3) False by auto
  qed
qed


lemma list_of_length_8:
  "length xs = 8 \<Longrightarrow> xs = [xs ! 0, xs ! 1, xs ! 2, xs ! 3, xs ! 4, xs ! 5, xs ! 6, xs ! 7]"
  by (auto simp: list_eq_iff_nth_eq numeral_eq_Suc less_Suc_eq)

lemma fsum_singles: "list_all2 fsum (map (\<lambda>x. {#x#}) xs) xs"
  by (induction xs) (auto intro: fsum_single)

lemma sum_list_singles: "sum_list (map (\<lambda>x. {#x#}) xs) = mset xs"
  by (induction xs) auto

lemma fsum_block_sum:
  assumes "8 \<le> length xs"
  shows "fsum (mset xs) (block_sum xs)"
proof -
  obtain r rest where u: "unrolled (take 8 xs) (drop 8 xs) = (r, rest)"
    by (cases "unrolled (take 8 xs) (drop 8 xs)") auto
  have l: "length (take 8 xs) = 8" using assms by simp
  from fsum_unrolled[OF fsum_singles l u] obtain Ms where
    m: "list_all2 fsum Ms r" "length r = 8"
       "sum_list Ms + mset rest = sum_list (map (\<lambda>x. {#x#}) (take 8 xs)) + mset (drop 8 xs)"
    by blast
  have lm: "length Ms = 8" using m(1,2) by (simp add: list_all2_lengthD)
  have f: "fsum (Ms ! i) (r ! i)" if "i < 8" for i
    using m(1) that lm by (simp add: list_all2_nthD2 m(2))
  have "fsum ((Ms ! 0 + Ms ! 1 + (Ms ! 2 + Ms ! 3)) + (Ms ! 4 + Ms ! 5 + (Ms ! 6 + Ms ! 7)))
          (fadd (fadd (fadd (r ! 0) (r ! 1)) (fadd (r ! 2) (r ! 3)))
                (fadd (fadd (r ! 4) (r ! 5)) (fadd (r ! 6) (r ! 7))))"
    unfolding fadd_def by (intro fsum_add f) simp_all
  moreover have "Ms ! 0 + Ms ! 1 + (Ms ! 2 + Ms ! 3) + (Ms ! 4 + Ms ! 5 + (Ms ! 6 + Ms ! 7)) = sum_list Ms"
    by (subst (9) list_of_length_8[OF lm]) (simp add: add.assoc)
  ultimately have "fsum (sum_list Ms)
          (fadd (fadd (fadd (r ! 0) (r ! 1)) (fadd (r ! 2) (r ! 3)))
                (fadd (fadd (r ! 4) (r ! 5)) (fadd (r ! 6) (r ! 7))))"
    by simp
  from fsum_seq_sum[OF this, of rest]
  have "fsum (sum_list Ms + mset rest) (block_sum xs)" by (simp add: block_sum_def u)
  moreover have "sum_list Ms + mset rest = mset xs"
    using m(3) by (simp add: sum_list_singles flip: mset_append)
  ultimately show ?thesis by simp
qed

lemma fsum_pairwise_sum: "fsum (mset xs) (pairwise_sum xs)"
proof (induction xs rule: pairwise_sum.induct)
  case (1 xs)
  show ?case
  proof (cases "length xs < 8")
    case True
    have "fsum ({#} + mset xs) (seq_sum 0 xs)" using fsum_empty by (rule fsum_seq_sum)
    then show ?thesis using True by (subst pairwise_sum.simps) simp
  next
    case False
    show ?thesis
    proof (cases "length xs \<le> 128")
      case True
      then show ?thesis using False fsum_block_sum[of xs] by (subst pairwise_sum.simps) simp
    next
      case big: False
      define n2 where "n2 = length xs div 2 - length xs div 2 mod 8"
      have a: "fsum (mset (take n2 xs)) (pairwise_sum (take n2 xs))"
        using 1(1)[OF False big n2_def] .
      have b: "fsum (mset (drop n2 xs)) (pairwise_sum (drop n2 xs))"
        using 1(2)[OF False big n2_def] .
      have "fsum (mset (take n2 xs) + mset (drop n2 xs))
              (fl (pairwise_sum (take n2 xs) + pairwise_sum (drop n2 xs)))"
        using a b by (rule fsum_add)
      then have "fsum (mset xs) (fadd (pairwise_sum (take n2 xs)) (pairwise_sum (drop n2 xs)))"
        by (simp add: fadd_def flip: mset_append)
      then show ?thesis using False big
        by (subst pairwise_sum.simps) (simp add: n2_def Let_def)
    qed
  qed
qed

lemma concat_chunks: "0 < n \<Longrightarrow> concat (chunks n xs) = xs"
proof (induction n xs rule: chunks.induct)
  case (1 n xs)
  show ?case
  proof (cases "xs = []")
    case True
    then show ?thesis by (subst chunks.simps) simp
  next
    case False
    then show ?thesis using 1 by (subst chunks.simps) simp
  qed
qed

lemma fsum_foldl_chunks:
  "fsum A acc \<Longrightarrow> fsum (A + mset (concat cs)) (foldl (\<lambda>acc c. fadd acc (pairwise_sum c)) acc cs)"
proof (induction cs arbitrary: A acc)
  case Nil
  then show ?case by simp
next
  case (Cons c cs)
  have "fsum (A + mset c) (fadd acc (pairwise_sum c))"
    unfolding fadd_def using Cons.prems fsum_pairwise_sum by (rule fsum_add)
  from Cons.IH[OF this] show ?case by (simp add: add.assoc)
qed

lemma fsum_np_sum: "fsum (mset xs) (np_sum xs)"
  using fsum_foldl_chunks[OF fsum_empty, of "chunks 8192 xs"]
  by (simp add: np_sum_def concat_chunks)

lemma fl_Ints:
  assumes "x \<in> \<int>" "\<bar>x\<bar> < 2 ^ 53"
  shows "fl x = x"
proof -
  from assms(1) obtain k where k: "x = of_int k" by (auto elim: Ints_cases)
  have "(of_int \<bar>k\<bar> :: rat) < of_int (2 ^ 53)" using assms(2) k by simp
  then have "\<bar>k\<bar> < 2 ^ 53" by (simp only: of_int_less_iff)
  then show ?thesis using k by (simp add: fl_of_int)
qed

lemma sum_mset_Ints: "(\<forall>x \<in># A. x \<in> \<int>) \<Longrightarrow> sum_mset A \<in> (\<int> :: rat set)"
  by (induction A) auto

lemma sum_mset_nonneg_rat: "(\<forall>x \<in># A. (0::rat) \<le> x) \<Longrightarrow> 0 \<le> sum_mset A"
  by (induction A) auto

lemma fsum_exact:
  assumes "fsum A s" "\<forall>x \<in># A. x \<in> \<int> \<and> 0 \<le> x" "sum_mset A < 2 ^ 53"
  shows "s = sum_mset A"
  using assms
proof (induction rule: fsum.induct)
  case fsum_empty
  then show ?case by simp
next
  case (fsum_single x)
  then show ?case by simp
next
  case (fsum_add A a B b)
  have nA: "0 \<le> sum_mset A" using fsum_add.prems(1) by (intro sum_mset_nonneg_rat) auto
  have nB: "0 \<le> sum_mset B" using fsum_add.prems(1) by (intro sum_mset_nonneg_rat) auto
  have s: "sum_mset A + sum_mset B < 2 ^ 53" using fsum_add.prems(2) by simp
  have a: "a = sum_mset A" using fsum_add.prems(1) nB s by (intro fsum_add.IH) auto
  have b: "b = sum_mset B" using fsum_add.prems(1) nA s by (intro fsum_add.IH) auto
  have "sum_mset (A + B) \<in> \<int>" using fsum_add.prems(1) by (intro sum_mset_Ints) auto
  moreover have "\<bar>sum_mset (A + B)\<bar> < 2 ^ 53" using nA nB s by simp
  ultimately have "fl (sum_mset (A + B)) = sum_mset (A + B)" by (rule fl_Ints)
  then show ?case by (simp add: a b)
qed

lemma member_le_sum_list_int:
  "\<forall>x \<in> set xs. (0::int) \<le> x \<Longrightarrow> x \<in> set xs \<Longrightarrow> x \<le> sum_list xs"
proof (induction xs)
  case Nil
  then show ?case by simp
next
  case (Cons y ys)
  have "0 \<le> sum_list ys" using Cons.prems(1) by (intro sum_list_nonneg) auto
  then show ?case using Cons by auto
qed

lemma float_of_int_exact: "\<bar>k\<bar> < 2 ^ 53 \<Longrightarrow> float_of_int k = of_int k"
  by (simp add: float_of_int_def fl_of_int)

lemma float_of_int_pos: "0 < k \<Longrightarrow> 0 < float_of_int k"
  by (simp add: float_of_int_def fl_pos)

lemma np_sum_exact:
  assumes "\<forall>x \<in> set xs. 0 \<le> x" "sum_list xs < 2 ^ 53"
  shows "np_sum (map float_of_int xs) = of_int (sum_list xs)"
proof -
  have e: "float_of_int x = of_int x" if "x \<in> set xs" for x
  proof -
    have "0 \<le> x" "x \<le> sum_list xs" using assms(1) that member_le_sum_list_int by auto
    then show ?thesis using assms(2) by (intro float_of_int_exact) simp
  qed
  then have m: "map float_of_int xs = map of_int xs" by simp
  have s: "sum_mset (image_mset of_int (mset xs)) = (of_int (sum_list xs) :: rat)"
    by (induction xs) auto
  have "np_sum (map of_int xs) = sum_mset (mset (map of_int xs))"
  proof (rule fsum_exact[OF fsum_np_sum])
    show "\<forall>x \<in># mset (map of_int xs). x \<in> \<int> \<and> (0::rat) \<le> x" using assms(1) by auto
    have "(of_int (sum_list xs) :: rat) < of_int (2 ^ 53)" using assms(2) by (simp only: of_int_less_iff)
    then show "sum_mset (mset (map of_int xs)) < (2 ^ 53 :: rat)" by (simp add: s)
  qed
  then show ?thesis by (simp add: m s)
qed

lemma mean_exact:
  assumes "xs \<noteq> []" "\<forall>x \<in> set xs. 0 \<le> x" "sum_list xs < 2 ^ 53"
  shows "mean xs = Some (fl (of_int (sum_list xs) / float_of_int (int (length xs))))"
  using assms by (simp add: mean_def np_sum_exact)

section \<open>Grouping and means\<close>

lemma sum_list_no_delta:
  "a \<notin> set ks \<Longrightarrow>
   sum_list (map (\<lambda>k. if a = k then (v::int) + h k else h k) ks) = sum_list (map h ks)"
  by (induction ks) auto

lemma sum_list_delta:
  "distinct ks \<Longrightarrow> a \<in> set ks \<Longrightarrow>
   sum_list (map (\<lambda>k. if a = k then (v::int) + h k else h k) ks) = v + sum_list (map h ks)"
  by (induction ks) (auto simp: sum_list_no_delta)

lemma sum_list_groups:
  "distinct ks \<Longrightarrow> fst ` set kvs \<subseteq> set ks \<Longrightarrow>
   sum_list (map (\<lambda>k. sum_list (map snd (filter (\<lambda>kv. fst kv = k) kvs))) ks)
     = sum_list (map snd (kvs :: ('k \<times> int) list))"
proof (induction kvs)
  case Nil
  then show ?case by simp
next
  case (Cons kv kvs)
  have "sum_list (map (\<lambda>k. sum_list (map snd (filter (\<lambda>kv. fst kv = k) (kv # kvs)))) ks)
      = sum_list (map (\<lambda>k. if fst kv = k then snd kv + sum_list (map snd (filter (\<lambda>kv. fst kv = k) kvs))
                             else sum_list (map snd (filter (\<lambda>kv. fst kv = k) kvs))) ks)"
    by (rule arg_cong[where f = sum_list]) (rule map_cong, auto)
  also have "\<dots> = snd kv + sum_list (map (\<lambda>k. sum_list (map snd (filter (\<lambda>kv. fst kv = k) kvs))) ks)"
    using Cons.prems by (intro sum_list_delta) auto
  also have "\<dots> = snd kv + sum_list (map snd kvs)"
    using Cons by simp
  finally show ?case by simp
qed

lemma wrap64_id: "int64 i \<Longrightarrow> wrap64 i = i"
  by (simp add: wrap64_def int64_def)

lemma sum_list_filter_le:
  "\<forall>x \<in> set xs. (0::int) \<le> snd x \<Longrightarrow>
   0 \<le> sum_list (map snd (filter P xs)) \<and> sum_list (map snd (filter P xs)) \<le> sum_list (map snd xs)"
  by (induction xs) auto

lemma group_sum_int64:
  assumes "\<forall>v \<in> set vals. 0 \<le> v" "sum_list vals < 2 ^ 63" "length keys = length vals"
  shows "wrap64 (sum_list (map snd (filter P (zip keys vals))))
           = sum_list (map snd (filter P (zip keys vals)))"
proof -
  have "\<forall>x \<in> set (zip keys vals). 0 \<le> snd x" using assms(1) by (auto dest: set_zip_rightD)
  from sum_list_filter_le[OF this, of P]
  have "0 \<le> sum_list (map snd (filter P (zip keys vals)))"
       "sum_list (map snd (filter P (zip keys vals))) \<le> sum_list vals"
    using assms(3) by simp_all
  then show ?thesis using assms(2) by (intro wrap64_id) (simp add: int64_def)
qed

lemma groupby_sum_values:
  assumes "\<forall>v \<in> set vals. 0 \<le> v" "sum_list vals < 2 ^ 63" "length keys = length vals"
  shows "map snd (groupby_sum ord keys vals)
           = map (\<lambda>k. sum_list (map snd (filter (\<lambda>kv. fst kv = k) (zip keys vals))))
               (sort_key ord (remdups keys))"
  by (simp add: groupby_sum_def comp_def group_sum_int64[OF assms])

lemma sum_groupby_sum:
  assumes "\<forall>v \<in> set vals. 0 \<le> v" "sum_list vals < 2 ^ 63" "length keys = length vals"
  shows "sum_list (map snd (groupby_sum ord keys vals)) = sum_list vals"
proof -
  have "sum_list (map snd (groupby_sum ord keys vals))
      = sum_list (map (\<lambda>k. sum_list (map snd (filter (\<lambda>kv. fst kv = k) (zip keys vals))))
                   (sort_key ord (remdups keys)))"
    by (simp only: groupby_sum_values[OF assms])
  also have "\<dots> = sum_list (map snd (zip keys vals))"
    by (rule sum_list_groups) (use assms(3) in \<open>auto dest: set_zip_leftD\<close>)
  also have "\<dots> = sum_list vals" using assms(3) by simp
  finally show ?thesis .
qed

lemma groupby_sum_nonneg:
  assumes "\<forall>v \<in> set vals. 0 \<le> v" "sum_list vals < 2 ^ 63" "length keys = length vals"
  shows "\<forall>x \<in> set (map snd (groupby_sum ord keys vals)). 0 \<le> x"
proof -
  have "\<forall>x \<in> set (zip keys vals). 0 \<le> snd x" using assms(1) by (auto dest: set_zip_rightD)
  then show ?thesis
    unfolding groupby_sum_values[OF assms] using sum_list_filter_le by auto
qed

lemma length_groupby_sum: "length (groupby_sum ord keys vals) = card (set keys)"
  by (simp add: groupby_sum_def length_remdups_card_conv)

lemma groupby_sum_empty: "groupby_sum ord keys vals = [] \<longleftrightarrow> keys = []"
proof -
  have "length (groupby_sum ord keys vals) = length (remdups keys)"
    by (simp add: groupby_sum_def)
  then show ?thesis by (metis length_0_conv remdups_eq_nil_iff)
qed

lemma mean_groupby_sum:
  assumes "xs \<noteq> []" "\<forall>x \<in> set xs. 0 \<le> g x" "sum_list (map g xs) < 2 ^ 53"
  shows "mean (map snd (groupby_sum ord (map f xs) (map g xs)))
           = Some (fl (of_int (sum_list (map g xs)) / float_of_int (int (card (f ` set xs)))))"
proof -
  have a: "\<forall>v \<in> set (map g xs). 0 \<le> v" using assms(2) by simp
  have b: "sum_list (map g xs) < 2 ^ 63" using assms(3) by simp
  have c: "length (map f xs) = length (map g xs)" by simp
  have ne: "map snd (groupby_sum ord (map f xs) (map g xs)) \<noteq> []"
    using assms(1) by (simp add: groupby_sum_empty)
  have s: "sum_list (map snd (groupby_sum ord (map f xs) (map g xs))) = sum_list (map g xs)"
    by (rule sum_groupby_sum[OF a b c])
  have "mean (map snd (groupby_sum ord (map f xs) (map g xs)))
      = Some (fl (of_int (sum_list (map snd (groupby_sum ord (map f xs) (map g xs))))
                  / float_of_int (int (length (map snd (groupby_sum ord (map f xs) (map g xs)))))))"
    using groupby_sum_nonneg[OF a b c] assms(3) by (intro mean_exact[OF ne]) (simp_all only: s)
  then show ?thesis by (simp add: s length_groupby_sum)
qed

section \<open>The projector\<close>

lemma py_int_frac_nonneg:
  "0 \<le> x \<Longrightarrow> 0 \<le> x - of_int (py_int x) \<and> x - of_int (py_int x) < 1"
  unfolding py_int_def by (simp, linarith)

lemma py_int_frac_neg:
  "x < 0 \<Longrightarrow> - 1 < x - of_int (py_int x) \<and> x - of_int (py_int x) \<le> 0"
  unfolding py_int_def by (simp, linarith)

lemma rne_fl_nonneg:
  assumes "0 \<le> y" "y < of_int D" "D \<le> 2 ^ 52"
  shows "0 \<le> rne (fl y) \<and> rne (fl y) \<le> D"
proof -
  have e: "\<bar>fl y - y\<bar> \<le> y / 2 ^ 53" using fl_error[of y] assms(1) by simp
  have "(of_int D :: rat) \<le> of_int (2 ^ 52)" using assms(3) by (simp only: of_int_le_iff)
  then have "(of_int D :: rat) \<le> 2 ^ 52" by simp
  then have "y < 2 ^ 52" using assms(2) by linarith
  then have "y / 2 ^ 53 < 1 / 2" by (simp add: field_simps)
  with e have f: "\<bar>fl y - y\<bar> < 1 / 2" by linarith
  have r: "\<bar>of_int (rne (fl y)) - fl y\<bar> \<le> 1 / 2" by (rule rne_error)
  have "0 \<le> fl y" using fl_pos[of y] fl_zero assms(1) by (cases "y = 0") auto
  with r have "- 1 < (of_int (rne (fl y)) :: rat)" by linarith
  then have "(of_int (- 1) :: rat) < of_int (rne (fl y))" by simp
  then have lo: "- 1 < rne (fl y)" by (simp only: of_int_less_iff)
  from f r assms(2) have "(of_int (rne (fl y)) :: rat) < of_int D + 1" by linarith
  then have "(of_int (rne (fl y)) :: rat) < of_int (D + 1)" by simp
  then have "rne (fl y) < D + 1" by (simp only: of_int_less_iff)
  with lo show ?thesis by linarith
qed

lemma rne_fl_nonpos:
  assumes "y \<le> 0" "- of_int D < y" "D \<le> 2 ^ 52"
  shows "- D \<le> rne (fl y) \<and> rne (fl y) \<le> 0"
proof -
  have e: "\<bar>fl y - y\<bar> \<le> (- y) / 2 ^ 53" using fl_error[of y] assms(1) by simp
  have "(of_int D :: rat) \<le> of_int (2 ^ 52)" using assms(3) by (simp only: of_int_le_iff)
  then have "(of_int D :: rat) \<le> 2 ^ 52" by simp
  then have "- y < 2 ^ 52" using assms(2) by linarith
  then have "(- y) / 2 ^ 53 < 1 / 2" by (simp add: field_simps)
  with e have f: "\<bar>fl y - y\<bar> < 1 / 2" by linarith
  have r: "\<bar>of_int (rne (fl y)) - fl y\<bar> \<le> 1 / 2" by (rule rne_error)
  have "fl y \<le> 0" using fl_neg[of y] fl_zero assms(1) by (cases "y = 0") auto
  with r have "(of_int (rne (fl y)) :: rat) < 1" by linarith
  then have "(of_int (rne (fl y)) :: rat) < of_int 1" by simp
  then have hi: "rne (fl y) < 1" by (simp only: of_int_less_iff)
  from f r assms(2) have "- of_int D - 1 < (of_int (rne (fl y)) :: rat)" by linarith
  then have "(of_int (- D - 1) :: rat) < of_int (rne (fl y))" by simp
  then have "- D - 1 < rne (fl y)" by (simp only: of_int_less_iff)
  with hi show ?thesis by linarith
qed

lemma us_per_day_small: "us_per_day \<le> 2 ^ 52" "0 < us_per_day"
  by (simp_all add: us_per_day_def)

lemma timedelta_days_cases:
  "timedelta_days x = Inl OverflowError
   \<or> (\<exists>r. timedelta_days x = Inr (py_int x * us_per_day + r)
          \<and> (0 \<le> x \<longrightarrow> 0 \<le> r \<and> r \<le> us_per_day)
          \<and> (x < 0 \<longrightarrow> - us_per_day \<le> r \<and> r \<le> 0))"
proof -
  define frac where "frac = x - of_int (py_int x)"
  define r where "r = rne (fl (of_int us_per_day * frac))"
  have D: "(0::rat) < of_int us_per_day" using us_per_day_small(2) by simp
  have a: "0 \<le> r \<and> r \<le> us_per_day" if "0 \<le> x"
  proof -
    from py_int_frac_nonneg[OF that] have "0 \<le> frac" "frac < 1" by (simp_all add: frac_def)
    then have "0 \<le> of_int us_per_day * frac" "of_int us_per_day * frac < of_int us_per_day"
      using D by simp_all
    then show ?thesis unfolding r_def by (intro rne_fl_nonneg us_per_day_small)
  qed
  have b: "- us_per_day \<le> r \<and> r \<le> 0" if "x < 0"
  proof -
    from py_int_frac_neg[OF that] have "- 1 < frac" "frac \<le> 0" by (simp_all add: frac_def)
    then have "of_int us_per_day * frac \<le> 0"
      using D by (simp add: mult_le_0_iff)
    moreover have "of_int us_per_day * (- 1) < of_int us_per_day * frac"
      using D \<open>- 1 < frac\<close> by (intro mult_strict_left_mono)
    then have "- of_int us_per_day < of_int us_per_day * frac" by simp
    ultimately have "of_int us_per_day * frac \<le> 0" "- of_int us_per_day < of_int us_per_day * frac"
      by simp_all
    then show ?thesis unfolding r_def by (intro rne_fl_nonpos us_per_day_small)
  qed
  have "timedelta_days x = Inl OverflowError \<or> timedelta_days x = Inr (py_int x * us_per_day + r)"
    by (simp add: timedelta_days_def Let_def r_def frac_def)
  with a b show ?thesis by blast
qed

lemma add_timedelta_cases:
  "add_timedelta now delta = Inl OverflowError
   \<or> (\<exists>t. add_timedelta now delta = Inr t
          \<and> ordinal t = (ordinal now * us_per_day + microsecond_of_day now + delta) div us_per_day)"
  by (simp add: add_timedelta_def Let_def)

lemma div_day_nonneg:
  assumes "0 \<le> t" "t < us_per_day" "0 \<le> r" "r \<le> us_per_day"
  shows "(a * us_per_day + t + (w * us_per_day + r)) div us_per_day = a + w
       \<or> (a * us_per_day + t + (w * us_per_day + r)) div us_per_day = a + w + 1"
proof -
  have D: "0 < us_per_day" by (rule us_per_day_small)
  have e: "a * us_per_day + t + (w * us_per_day + r) = (t + r) + (a + w) * us_per_day"
    by (simp add: algebra_simps)
  have "(t + r) div us_per_day = 0 \<or> (t + r) div us_per_day = 1"
  proof (cases "t + r < us_per_day")
    case True
    then show ?thesis using assms by simp
  next
    case False
    then have "0 \<le> t + r - us_per_day" "t + r - us_per_day < us_per_day" using assms by linarith+
    then have "(t + r - us_per_day) div us_per_day = 0" by simp
    moreover have "(t + r) div us_per_day = (t + r - us_per_day) div us_per_day + 1"
      using D by (metis diff_add_cancel div_add_self2 less_irrefl)
    ultimately show ?thesis by simp
  qed
  then show ?thesis using D unfolding e by (auto simp: div_mult_self1)
qed

lemma div_day_nonpos:
  assumes "0 \<le> t" "t < us_per_day" "- us_per_day \<le> r" "r \<le> 0"
  shows "(a * us_per_day + t + (w * us_per_day + r)) div us_per_day = a + w
       \<or> (a * us_per_day + t + (w * us_per_day + r)) div us_per_day = a + w - 1"
proof -
  have D: "0 < us_per_day" by (rule us_per_day_small)
  have "0 \<le> t + (r + us_per_day)" "r + us_per_day \<le> us_per_day" "0 \<le> r + us_per_day"
    using assms by linarith+
  from div_day_nonneg[OF assms(1,2) this(3,2), of a "w - 1"]
  show ?thesis by (auto simp: algebra_simps)
qed


lemma TOTAL_FLIGHTS_value: "TOTAL_FLIGHTS_KINABALU = 13435 / 8"
  by code_simp

lemma daily_average_value:
  assumes "data \<noteq> []" "\<forall>r \<in> set data. 0 \<le> snd r" "sum_list (map snd data) < 2 ^ 53"
  shows "daily_average data
     = Some (fl (of_int (sum_list (map snd data)) / float_of_int (int (card (fst ` set data)))))"
  unfolding daily_average_def using assms by (rule mean_groupby_sum)

lemma daily_average_none: "daily_average data = None \<longleftrightarrow> data = []"
  by (simp add: daily_average_def mean_def groupby_sum_empty)

lemma predict_unfold:
  assumes "data \<noteq> []" "daily_average data = Some a" "0 < a"
  shows "predict_completion_date now data
       = (case timedelta_days (days_to_completion data a) of
            Inl e \<Rightarrow> Inl e
          | Inr delta \<Rightarrow>
              (case add_timedelta now delta of
                 Inl e \<Rightarrow> Inl e
               | Inr completion_date \<Rightarrow>
                   Inr (Some (ordinal completion_date, py_int (days_to_completion data a)))))"
  using assms by (simp add: predict_completion_date_def Let_def)

lemma predict_cases:
  assumes "data \<noteq> []" "daily_average data = Some a" "0 < a"
    and t: "0 \<le> microsecond_of_day now" "microsecond_of_day now < us_per_day"
  shows "predict_completion_date now data = Inl OverflowError
       \<or> (\<exists>c. predict_completion_date now data = Inr (Some (c, py_int (days_to_completion data a)))
              \<and> (0 \<le> days_to_completion data a \<longrightarrow>
                    c = ordinal now + py_int (days_to_completion data a)
                  \<or> c = ordinal now + py_int (days_to_completion data a) + 1)
              \<and> (days_to_completion data a < 0 \<longrightarrow>
                    c = ordinal now + py_int (days_to_completion data a)
                  \<or> c = ordinal now + py_int (days_to_completion data a) - 1))"
proof -
  define q where "q = days_to_completion data a"
  note u = predict_unfold[OF assms(1-3), of now, folded q_def]
  from timedelta_days_cases[of q] show ?thesis
  proof
    assume "timedelta_days q = Inl OverflowError"
    then show ?thesis using u by (simp add: q_def)
  next
    assume "\<exists>r. timedelta_days q = Inr (py_int q * us_per_day + r)
          \<and> (0 \<le> q \<longrightarrow> 0 \<le> r \<and> r \<le> us_per_day)
          \<and> (q < 0 \<longrightarrow> - us_per_day \<le> r \<and> r \<le> 0)"
    then obtain r where td: "timedelta_days q = Inr (py_int q * us_per_day + r)"
      and rp: "0 \<le> q \<longrightarrow> 0 \<le> r \<and> r \<le> us_per_day"
      and rn: "q < 0 \<longrightarrow> - us_per_day \<le> r \<and> r \<le> 0" by blast
    from add_timedelta_cases[of now "py_int q * us_per_day + r"] show ?thesis
    proof
      assume "add_timedelta now (py_int q * us_per_day + r) = Inl OverflowError"
      then show ?thesis using u td by (simp add: q_def)
    next
      assume "\<exists>t. add_timedelta now (py_int q * us_per_day + r) = Inr t
          \<and> ordinal t = (ordinal now * us_per_day + microsecond_of_day now
                           + (py_int q * us_per_day + r)) div us_per_day"
      then obtain cd where a: "add_timedelta now (py_int q * us_per_day + r) = Inr cd"
        and o: "ordinal cd = (ordinal now * us_per_day + microsecond_of_day now
                           + (py_int q * us_per_day + r)) div us_per_day" by blast
      have res: "predict_completion_date now data = Inr (Some (ordinal cd, py_int q))"
        using u td a by simp
      have p: "ordinal cd = ordinal now + py_int q \<or> ordinal cd = ordinal now + py_int q + 1"
        if "0 \<le> q"
        using div_day_nonneg[OF t, of r "ordinal now" "py_int q"] rp that o by simp
      have n: "ordinal cd = ordinal now + py_int q \<or> ordinal cd = ordinal now + py_int q - 1"
        if "q < 0"
        using div_day_nonpos[OF t, of r "ordinal now" "py_int q"] rn that o by simp
      show ?thesis using res p n unfolding q_def by blast
    qed
  qed
qed

lemma evening_time: "0 \<le> microsecond_of_day evening" "microsecond_of_day evening < us_per_day"
  by (simp_all add: evening_def us_per_day_def)

lemma ordinal_evening: "ordinal evening = 739924"
  by (simp add: evening_def)

lemma py_int_one_flight: "py_int (13427 / 8) = 1678"
  by code_simp




lemma predict_1680:
  "predict_completion_date evening [(Date 2024 3 15, 1680)] = Inr (Some (739924, 0))"
  by code_simp

lemma total_1680: "TOTAL_FLIGHTS_KINABALU < of_int (total_flights_climbed [(Date 2024 3 15, 1680)])"
  by code_simp









end
